theory Spec2Isabelle
  imports Complex_Main "HOL-Library.FSet" "HOL-Library.AList"
begin

section \<open>Strings\<close>

text \<open>
  Python strings are modelled as \<^typ>\<open>string\<close>, a list of characters with code points
  0 to 255 (Latin-1).  Code points above 255 are outside the model.
\<close>

definition lower_char :: "char \<Rightarrow> char" where
  \<comment> \<open>what \<^verbatim>\<open>str.lower\<close> does to one Latin-1 code point: A-Z and the accented capitals
      U+00C0 to U+00DE (the multiplication sign U+00D7 apart) move up by 32\<close>
  "lower_char c =
     (let n = (of_char c :: nat)
      in if (65 \<le> n \<and> n \<le> 90) \<or> (192 \<le> n \<and> n \<le> 222 \<and> n \<noteq> 215)
         then char_of (n + 32) else c)"

definition lower :: "string \<Rightarrow> string" where
  "lower s = map lower_char s"

definition replace_char :: "char \<Rightarrow> string \<Rightarrow> string \<Rightarrow> string" where
  \<comment> \<open>\<^verbatim>\<open>s.replace(c, r)\<close> for a one-character pattern\<close>
  "replace_char c r s = concat (map (\<lambda>x. if x = c then r else [x]) s)"

definition allowed :: "char \<Rightarrow> bool" where
  \<comment> \<open>the character class \<^verbatim>\<open>[a-z0-9_]\<close>\<close>
  "allowed c =
     (let n = (of_char c :: nat)
      in (97 \<le> n \<and> n \<le> 122) \<or> (48 \<le> n \<and> n \<le> 57) \<or> n = 95)"

definition sub_disallowed :: "string \<Rightarrow> string" where
  \<comment> \<open>\<^verbatim>\<open>re.sub(r'[^a-z0-9_]', '_', s)\<close>: every character outside the class becomes one underscore\<close>
  "sub_disallowed s = map (\<lambda>c. if allowed c then c else CHR ''_'') s"

fun collapse_underscores :: "string \<Rightarrow> string" where
  \<comment> \<open>\<^verbatim>\<open>re.sub(r'_+', '_', s)\<close>: every maximal run of underscores becomes one underscore\<close>
  "collapse_underscores (a # b # cs) =
     (if a = CHR ''_'' \<and> b = CHR ''_'' then collapse_underscores (b # cs)
      else a # collapse_underscores (b # cs))"
| "collapse_underscores cs = cs"

definition strip_underscores :: "string \<Rightarrow> string" where
  \<comment> \<open>\<^verbatim>\<open>s.strip('_')\<close>\<close>
  "strip_underscores s =
     rev (dropWhile (\<lambda>c. c = CHR ''_'') (rev (dropWhile (\<lambda>c. c = CHR ''_'') s)))"

definition isdigit :: "char \<Rightarrow> bool" where
  \<comment> \<open>\<^verbatim>\<open>str.isdigit\<close> on one Latin-1 code point: 0-9 and the superscripts U+00B2, U+00B3, U+00B9\<close>
  "isdigit c =
     (let n = (of_char c :: nat)
      in (48 \<le> n \<and> n \<le> 57) \<or> n = 178 \<or> n = 179 \<or> n = 185)"

section \<open>Name sanitizers (utils/sanitizers.py)\<close>

definition sanitize_table_name :: "string \<Rightarrow> string" where
  "sanitize_table_name name =
     (let table = lower name;
          table = sub_disallowed table;
          table = collapse_underscores table;
          table = strip_underscores table;
          table = (if table \<noteq> [] \<and> isdigit (hd table) then ''data_'' @ table else table)
      in if table \<noteq> [] then table else ''data_client'')"

definition sanitize_column_name :: "string \<Rightarrow> string" where
  "sanitize_column_name name =
     (let column = lower name;
          column = replace_char (CHR ''+'') ''_plus'' column;
          column = replace_char (CHR ''-'') ''_'' column;
          column = sub_disallowed column;
          column = collapse_underscores column;
          column = strip_underscores column
      in column)"


fun str_nat :: "nat \<Rightarrow> string" where
  \<comment> \<open>\<^verbatim>\<open>str(n)\<close> for a non-negative integer: its decimal digits\<close>
  "str_nat n =
     (if n < 10 then [char_of (48 + n)]
      else str_nat (n div 10) @ [char_of (48 + n mod 10)])"

declare str_nat.simps [simp del]

definition suffixed :: "string \<Rightarrow> nat \<Rightarrow> string" where
  \<comment> \<open>the f-string \<^verbatim>\<open>f"{original}_{counter}"\<close>\<close>
  "suffixed original counter = original @ ''_'' @ str_nat counter"


text \<open>
  Distinct counters give distinct suffixed names; this is what makes the collision loop
  of \<^verbatim>\<open>make_columns_unique\<close> stop.
\<close>

lemma digit_inj: "a < 10 \<Longrightarrow> b < 10 \<Longrightarrow> (char_of (48 + a) :: char) = char_of (48 + b) \<Longrightarrow> a = (b::nat)"
proof -
  assume a: "a < 10" "b < 10" and e: "(char_of (48 + a) :: char) = char_of (48 + b)"
  from e have "(of_char (char_of (48 + a) :: char) :: nat) = of_char (char_of (48 + b) :: char)" by simp
  then have "(48 + a) mod 256 = (48 + b) mod 256" by (simp only: of_char_of)
  with a show ?thesis by simp
qed

lemma str_nat_ne: "str_nat n \<noteq> []"
  by (subst str_nat.simps) simp

lemma str_nat_inj: "str_nat a = str_nat b \<Longrightarrow> a = b"
proof (induction a arbitrary: b rule: str_nat.induct)
  case (1 n)
  show ?case
  proof (cases "n < 10")
    case True
    then have a: "str_nat n = [char_of (48 + n)]" by (subst str_nat.simps) simp
    show ?thesis
    proof (cases "b < 10")
      case True
      then have "str_nat b = [char_of (48 + b)]" by (subst str_nat.simps) simp
      with a 1 have "(char_of (48 + n) :: char) = char_of (48 + b)" by simp
      with \<open>n < 10\<close> True show ?thesis by (simp add: digit_inj)
    next
      case False
      then have "str_nat b = str_nat (b div 10) @ [char_of (48 + b mod 10)]" by (subst str_nat.simps) simp
      with a 1(2) str_nat_ne[of "b div 10"] show ?thesis by (cases "str_nat (b div 10)") auto 
    qed
  next
    case False
    then have a: "str_nat n = str_nat (n div 10) @ [char_of (48 + n mod 10)]" by (subst str_nat.simps) simp
    show ?thesis
    proof (cases "b < 10")
      case True
      then have "str_nat b = [char_of (48 + b)]" by (subst str_nat.simps) simp
      with a 1(2) str_nat_ne[of "n div 10"] show ?thesis by (cases "str_nat (n div 10)") auto 
    next
      case F2: False
      then have b: "str_nat b = str_nat (b div 10) @ [char_of (48 + b mod 10)]" by (subst str_nat.simps) simp
      from a b 1(2) have e1: "str_nat (n div 10) = str_nat (b div 10)" and e2: "(char_of (48 + n mod 10) :: char) = char_of (48 + b mod 10)" by auto
      from 1(1)[OF False e1] have "n div 10 = b div 10" .
      moreover have "n mod 10 = b mod 10" using e2 by (intro digit_inj) auto
      ultimately show ?thesis by (metis div_mult_mod_eq)
    qed
  qed
qed

lemma suffixed_inj: "suffixed original a = suffixed original b \<Longrightarrow> a = b"
  by (simp add: suffixed_def str_nat_inj)

definition pending :: "string \<Rightarrow> string fset \<Rightarrow> nat \<Rightarrow> nat set" where
  "pending original seen counter = {k. counter \<le> k \<and> suffixed original k |\<in>| seen}"

lemma finite_pending: "finite (pending original seen counter)"
proof -
  have "pending original seen counter \<subseteq> (suffixed original) -` (fset seen)"
    by (auto simp: pending_def)
  moreover have "finite ((suffixed original) -` (fset seen))"
    by (rule finite_vimageI) (auto simp: inj_on_def dest: suffixed_inj)
  ultimately show ?thesis by (rule finite_subset)
qed

lemma pending_step:
  "card (pending original seen (Suc counter)) + (if suffixed original counter |\<in>| seen then 1 else 0)
     = card (pending original seen counter)"
proof -
  have eq: "pending original seen counter =
      (if suffixed original counter |\<in>| seen then insert counter (pending original seen (Suc counter))
       else pending original seen (Suc counter))"
    by (auto simp: pending_def Suc_le_eq le_less)
  have notin: "counter \<notin> pending original seen (Suc counter)" by (simp add: pending_def)
  show ?thesis
  proof (cases "suffixed original counter |\<in>| seen")
    case True
    then have "pending original seen counter = insert counter (pending original seen (Suc counter))"
      using eq by simp
    then show ?thesis using True notin by (simp add: finite_pending)
  next
    case False
    then show ?thesis using eq by simp
  qed
qed

function while_in_seen :: "string \<Rightarrow> string fset \<Rightarrow> string \<Rightarrow> nat \<Rightarrow> string" where
  "while_in_seen original seen sanitized counter =
     (if sanitized |\<in>| seen
      then while_in_seen original seen (suffixed original counter) (counter + 1)
      else sanitized)"
  by pat_completeness auto
termination
proof (relation "measure (\<lambda>(original, seen, sanitized, counter).
          card (pending original seen counter) + (if sanitized |\<in>| seen then 1 else 0))")
  show "wf (measure (\<lambda>(original, seen, sanitized, counter).
          card (pending original seen counter) + (if sanitized |\<in>| seen then 1 else 0)))"
    by simp
next
  fix original :: string and seen :: "string fset" and sanitized :: string and counter :: nat
  assume "sanitized |\<in>| seen"
  then show "((original, seen, suffixed original counter, counter + 1), original, seen, sanitized, counter)
       \<in> measure (\<lambda>(original, seen, sanitized, counter).
          card (pending original seen counter) + (if sanitized |\<in>| seen then 1 else 0))"
    using pending_step[of original seen counter] by simp
qed

declare while_in_seen.simps [simp del]

fun unique_loop :: "string list \<Rightarrow> string fset \<Rightarrow> string list \<Rightarrow> string list" where
  "unique_loop [] seen unique_columns = unique_columns"
| "unique_loop (col # columns) seen unique_columns =
     (let sanitized = sanitize_column_name col;
          original = sanitized;
          sanitized = while_in_seen original seen sanitized 2
      in unique_loop columns (finsert sanitized seen) (unique_columns @ [sanitized]))"

definition make_columns_unique :: "string list \<Rightarrow> string list" where
  "make_columns_unique columns = unique_loop columns {||} []"

section \<open>Dates and times of the standard library\<close>

text \<open>
  A naive \<^verbatim>\<open>datetime\<close> is a record of its fields; the weekday is computed from the date
  as the standard library does, through the proleptic Gregorian ordinal (Monday is 0,
  Sunday is 6).
\<close>

record datetime =
  dt_year :: nat
  dt_month :: nat
  dt_day :: nat
  dt_hour :: nat
  dt_minute :: nat
  dt_second :: nat
  dt_microsecond :: nat

record time =
  t_hour :: nat
  t_minute :: nat
  t_second :: nat
  t_microsecond :: nat

definition mk_time :: "nat \<Rightarrow> nat \<Rightarrow> nat \<Rightarrow> time" where
  \<comment> \<open>\<^verbatim>\<open>time(hour, minute, second)\<close>; the microsecond defaults to 0\<close>
  "mk_time h m s = \<lparr>t_hour = h, t_minute = m, t_second = s, t_microsecond = 0\<rparr>"

definition time_lt :: "time \<Rightarrow> time \<Rightarrow> bool" where
  \<comment> \<open>\<^verbatim>\<open>a < b\<close> on naive times: the tuples (hour, minute, second, microsecond) in
      lexicographic order\<close>
  "time_lt a b =
     (t_hour a < t_hour b \<or> (t_hour a = t_hour b \<and>
       (t_minute a < t_minute b \<or> (t_minute a = t_minute b \<and>
         (t_second a < t_second b \<or> (t_second a = t_second b \<and>
           t_microsecond a < t_microsecond b))))))"

definition time_le :: "time \<Rightarrow> time \<Rightarrow> bool" where
  "time_le a b =
     (time_lt a b \<or> (t_hour a = t_hour b \<and> t_minute a = t_minute b \<and>
        t_second a = t_second b \<and> t_microsecond a = t_microsecond b))"

definition is_leap :: "nat \<Rightarrow> bool" where
  "is_leap y = (y mod 4 = 0 \<and> (y mod 100 \<noteq> 0 \<or> y mod 400 = 0))"

definition days_before_year :: "nat \<Rightarrow> nat" where
  "days_before_year y' = (let y = y' - 1 in y * 365 + y div 4 - y div 100 + y div 400)"

definition days_in_month :: "nat \<Rightarrow> nat \<Rightarrow> nat" where
  "days_in_month y m =
     (if m = 2 \<and> is_leap y then 29
      else [31, 28, 31, 30, 31, 30, 31, 31, 30, 31, 30, 31] ! (m - 1))"

definition days_before_month :: "nat \<Rightarrow> nat \<Rightarrow> nat" where
  "days_before_month y m =
     [0, 31, 59, 90, 120, 151, 181, 212, 243, 273, 304, 334] ! (m - 1)
       + (if m > 2 \<and> is_leap y then 1 else 0)"

definition ymd2ord :: "nat \<Rightarrow> nat \<Rightarrow> nat \<Rightarrow> nat" where
  "ymd2ord y m d = days_before_year y + days_before_month y m + d"

definition weekday :: "datetime \<Rightarrow> nat" where
  \<comment> \<open>\<^verbatim>\<open>datetime.weekday()\<close>\<close>
  "weekday d = (ymd2ord (dt_year d) (dt_month d) (dt_day d) + 6) mod 7"

section \<open>Tariff classifier (utils/tariff_classifier.py)\<close>

datatype tariff = Base | Intermedio | Punta

definition classify_weekday :: "time \<Rightarrow> tariff" where
  "classify_weekday current_time =
     (let peak_start = mk_time 18 0 0;
          peak_end = mk_time 22 0 0;
          intermediate_morning_start = mk_time 6 0 0;
          intermediate_morning_end = mk_time 10 0 0;
          intermediate_evening_start = mk_time 22 0 0;
          intermediate_evening_end = mk_time 23 59 59
      in if time_le peak_start current_time \<and> time_lt current_time peak_end then Punta
         else if (time_le intermediate_morning_start current_time
                    \<and> time_lt current_time intermediate_morning_end)
               \<or> (time_le intermediate_evening_start current_time
                    \<and> time_le current_time intermediate_evening_end)
         then Intermedio
         else Base)"

definition classify_tariff :: "datetime \<Rightarrow> tariff" where
  "classify_tariff timestamp =
     (let hour = dt_hour timestamp;
          minute = dt_minute timestamp;
          day_of_week = weekday timestamp;
          current_time = mk_time hour minute 0;
          is_weekend = (day_of_week \<ge> 5)
      in if is_weekend then Base else classify_weekday current_time)"

definition seconds_of_day :: "datetime \<Rightarrow> nat" where
  \<comment> \<open>the time of day in whole seconds since midnight\<close>
  "seconds_of_day d = dt_hour d * 3600 + dt_minute d * 60 + dt_second d"

definition mk_datetime :: "nat \<Rightarrow> nat \<Rightarrow> nat \<Rightarrow> nat \<Rightarrow> nat \<Rightarrow> nat \<Rightarrow> nat \<Rightarrow> datetime" where
  \<comment> \<open>\<^verbatim>\<open>datetime(year, month, day, hour, minute, second, microsecond)\<close>\<close>
  "mk_datetime y mo d h mi s us =
     \<lparr>dt_year = y, dt_month = mo, dt_day = d, dt_hour = h, dt_minute = mi, dt_second = s,
      dt_microsecond = us\<rparr>"


section \<open>Readings of the device library\<close>

text \<open>
  The rows that the eGauge client library returns are objects of that library; the
  repository only uses them.  A row is modelled as the specification describes a reading: a
  timestamp and a mapping from register label to cumulative value.  Values are real numbers;
  rounding of floating-point arithmetic is not modelled.
\<close>

record row =
  ts :: real
  regs :: "string \<rightharpoonup> real"

definition row_minus :: "row \<Rightarrow> row \<Rightarrow> row" where
  \<comment> \<open>Modelled from the spec: the library's row subtraction \<^verbatim>\<open>rows[i] - rows[i + 1]\<close>, which
      is not in the repository.  The difference is taken register by register; a register
      absent from either side is absent from the difference.\<close>
  "row_minus a b =
     \<lparr>ts = ts a - ts b,
      regs = (\<lambda>regname. case regs a regname of
                 None \<Rightarrow> None
               | Some x \<Rightarrow> (case regs b regname of None \<Rightarrow> None | Some y \<Rightarrow> Some (x - y)))\<rparr>"

definition pq_accu :: "row \<Rightarrow> string \<Rightarrow> real option" where
  \<comment> \<open>Modelled from the spec: the library's \<^verbatim>\<open>pq_accu(regname)\<close>, which is not in the
      repository.  It gives the accumulated quantity of a register, and nothing (which
      counts as false) for a register the row does not have; the result stands for
      \<^verbatim>\<open>accu.value\<close>.\<close>
  "pq_accu r regname = regs r regname"

section \<open>Values and conversions of the standard library\<close>

datatype pyval = PStr string | PInt int | PFloat real

datatype py_error = KeyError string

definition py_int :: "real \<Rightarrow> int" where
  \<comment> \<open>\<^verbatim>\<open>int(x)\<close> on a float: truncation towards zero\<close>
  "py_int x = (if 0 \<le> x then \<lfloor>x\<rfloor> else \<lceil>x\<rceil>)"

definition str_int :: "int \<Rightarrow> string" where
  \<comment> \<open>\<^verbatim>\<open>str(i)\<close> for an integer\<close>
  "str_int i = (if i < 0 then ''-'' @ str_nat (nat (- i)) else str_nat (nat i))"

definition zero_pad :: "nat \<Rightarrow> nat \<Rightarrow> string" where
  \<comment> \<open>a number in decimal, padded with zeros on the left to the given width\<close>
  "zero_pad width n = replicate (width - length (str_nat n)) (CHR ''0'') @ str_nat n"

definition strftime_date :: "datetime \<Rightarrow> string" where
  \<comment> \<open>\<^verbatim>\<open>strftime("%Y-%m-%d")\<close>, the year written with four digits\<close>
  "strftime_date d =
     zero_pad 4 (dt_year d) @ ''-'' @ zero_pad 2 (dt_month d) @ ''-'' @ zero_pad 2 (dt_day d)"

definition strftime_time :: "datetime \<Rightarrow> string" where
  \<comment> \<open>\<^verbatim>\<open>strftime("%H:%M:%S")\<close>\<close>
  "strftime_time d =
     zero_pad 2 (dt_hour d) @ '':'' @ zero_pad 2 (dt_minute d) @ '':'' @ zero_pad 2 (dt_second d)"

definition datetime_lt :: "datetime \<Rightarrow> datetime \<Rightarrow> bool" where
  \<comment> \<open>\<^verbatim>\<open>a < b\<close> on naive datetimes: the fields in lexicographic order\<close>
  "datetime_lt a b =
     (dt_year a < dt_year b \<or> (dt_year a = dt_year b \<and>
       (dt_month a < dt_month b \<or> (dt_month a = dt_month b \<and>
         (dt_day a < dt_day b \<or> (dt_day a = dt_day b \<and>
           (dt_hour a < dt_hour b \<or> (dt_hour a = dt_hour b \<and>
             (dt_minute a < dt_minute b \<or> (dt_minute a = dt_minute b \<and>
               (dt_second a < dt_second b \<or> (dt_second a = dt_second b \<and>
                 dt_microsecond a < dt_microsecond b))))))))))))"

definition tariff_str :: "tariff \<Rightarrow> string" where
  \<comment> \<open>the string that \<^verbatim>\<open>classify_tariff\<close> returns for each tariff\<close>
  "tariff_str t = (case t of Base \<Rightarrow> ''Base'' | Intermedio \<Rightarrow> ''Intermedio'' | Punta \<Rightarrow> ''Punta'')"

definition dict_of_pairs :: "('k \<times> 'v) list \<Rightarrow> ('k \<rightharpoonup> 'v)" where
  \<comment> \<open>\<^verbatim>\<open>dict(pairs)\<close>: for a repeated key the last pair wins\<close>
  "dict_of_pairs ps = fold (\<lambda>(k, v) m. m(k \<mapsto> v)) ps Map.empty"

text \<open>
  \<^verbatim>\<open>datetime.fromtimestamp\<close> converts to the local time of the process, which the
  repository does not fix; the functions below take the conversion as an argument, and take
  it to succeed (timestamps beyond the years a \<^verbatim>\<open>datetime\<close> can hold are not modelled).  For
  examples, \<open>utc_fromtimestamp\<close> is the conversion of a process whose local zone is UTC, with
  the date found from the day count as the standard library does.
\<close>

definition ord2ymd :: "nat \<Rightarrow> nat \<times> nat \<times> nat" where
  "ord2ymd ordinal =
     (let n = ordinal - 1;
          n400 = n div 146097; n = n mod 146097;
          n100 = n div 36524; n = n mod 36524;
          n4 = n div 1461; n = n mod 1461;
          n1 = n div 365; n = n mod 365;
          year = n400 * 400 + 1 + n100 * 100 + n4 * 4 + n1
      in if n1 = 4 \<or> n100 = 4 then (year - 1, 12, 31)
         else
           let month = (n + 50) div 32;
               preceding = days_before_month year month
           in if preceding > n
              then (year, month - 1, n - (preceding - days_in_month year (month - 1)) + 1)
              else (year, month, n - preceding + 1))"

definition utc_fromtimestamp :: "real \<Rightarrow> datetime" where
  "utc_fromtimestamp t =
     (let s = \<lfloor>t\<rfloor>;
          (y, m, d) = ord2ymd (nat (719163 + s div 86400));
          r = s mod 86400
      in mk_datetime y m d (nat (r div 3600)) (nat (r mod 3600 div 60)) (nat (r mod 60))
           (nat \<lfloor>(t - of_int s) * 1000000\<rfloor>))"

section \<open>Reading-delta reducer and extraction (services/egauge_service.py)\<close>

type_synonym record_row = "(string \<times> pyval) list"

fun add_register_values ::
  "row \<Rightarrow> (string \<rightharpoonup> string) \<Rightarrow> string list \<Rightarrow> record_row \<Rightarrow> py_error + record_row" where
  \<comment> \<open>the inner loop \<^verbatim>\<open>for regname in registers\<close>; \<^verbatim>\<open>register_mapping[regname]\<close> raises
      KeyError for a register without an entry\<close>
  "add_register_values delta_row register_mapping [] r = Inr r"
| "add_register_values delta_row register_mapping (regname # registers) r =
     (let accu = pq_accu delta_row regname
      in case register_mapping regname of
           None \<Rightarrow> Inl (KeyError regname)
         | Some col_name \<Rightarrow>
             add_register_values delta_row register_mapping registers
               (AList.update col_name (PFloat (case accu of Some v \<Rightarrow> v | None \<Rightarrow> 0)) r))"

definition process_pair ::
  "(real \<Rightarrow> datetime) \<Rightarrow> row \<Rightarrow> row \<Rightarrow> string list \<Rightarrow> (string \<rightharpoonup> string)
     \<Rightarrow> py_error + record_row" where
  \<comment> \<open>the body of the loop over \<open>i\<close>, for \<^verbatim>\<open>rows[i]\<close> and \<^verbatim>\<open>rows[i + 1]\<close>\<close>
  "process_pair fromtimestamp row_i row_i1 registers register_mapping =
     (let delta_row = row_minus row_i row_i1;
          timestamp_float = ts row_i1;
          timestamp = fromtimestamp timestamp_float;
          tariff = classify_tariff timestamp;
          r = [(''date'', PStr (strftime_date timestamp)),
               (''time'', PStr (strftime_time timestamp)),
               (''timestamp'', PInt (py_int timestamp_float)),
               (''tariff'', PStr (tariff_str tariff))]
      in add_register_values delta_row register_mapping registers r)"

fun process_loop ::
  "(nat \<Rightarrow> py_error + record_row) \<Rightarrow> nat list \<Rightarrow> record_row list \<Rightarrow> py_error + record_row list" where
  \<comment> \<open>\<^verbatim>\<open>for i in ...: data.append(row)\<close>; an exception in the body ends the loop\<close>
  "process_loop body [] data = Inr data"
| "process_loop body (i # is) data =
     (case body i of Inl e \<Rightarrow> Inl e | Inr r \<Rightarrow> process_loop body is (data @ [r]))"

definition process_rows ::
  "(real \<Rightarrow> datetime) \<Rightarrow> row list \<Rightarrow> string list \<Rightarrow> (string \<rightharpoonup> string)
     \<Rightarrow> py_error + record_row list" where
  \<comment> \<open>\<^verbatim>\<open>_process_rows\<close>; \<^verbatim>\<open>range(len(rows) - 1)\<close> is empty for fewer than two rows\<close>
  "process_rows fromtimestamp rows registers register_mapping =
     process_loop
       (\<lambda>i. process_pair fromtimestamp (rows ! i) (rows ! (i + 1)) registers register_mapping)
       [0..<length rows - 1] []"

definition build_register_mapping :: "string list \<Rightarrow> (string \<rightharpoonup> string)" where
  \<comment> \<open>\<^verbatim>\<open>dict(zip(registers, make_columns_unique(registers)))\<close>, as \<^verbatim>\<open>extract_data\<close> builds it\<close>
  "build_register_mapping registers = dict_of_pairs (zip registers (make_columns_unique registers))"

text \<open>
  What \<^verbatim>\<open>extract_data\<close> gets from outside: the device library (connecting raises with a
  message or gives a device; reading the registers raises with a message or gives the rows
  and the declared register names), the clock and the local time zone.
\<close>

record 'dev env =
  env_connect :: "string \<Rightarrow> string + 'dev"
  env_fetch :: "'dev \<Rightarrow> string \<Rightarrow> string + row list \<times> string list"
  env_now :: datetime
  env_timestamp :: "datetime \<Rightarrow> real"
  env_fromtimestamp :: "real \<Rightarrow> datetime"

record extraction =
  res_columns :: "string list"
  res_sanitized_columns :: "string list"
  res_register_mapping :: "string \<rightharpoonup> string"
  res_data :: "record_row list"
  res_total_records :: nat

datatype response = Failure string | Success extraction

definition error_str :: "py_error \<Rightarrow> string" where
  \<comment> \<open>\<^verbatim>\<open>str(e)\<close> of a KeyError: the key in quotes\<close>
  "error_str e = (case e of KeyError k \<Rightarrow> [CHR 0x27] @ k @ [CHR 0x27])"

definition time_param_str :: "int \<Rightarrow> int \<Rightarrow> int \<Rightarrow> string" where
  \<comment> \<open>\<^verbatim>\<open>f"{start_ts}:{delta_seconds}:{end_ts}"\<close>\<close>
  "time_param_str start_ts delta_seconds end_ts =
     str_int start_ts @ '':'' @ str_int delta_seconds @ '':'' @ str_int end_ts"

definition request_time_param :: "'dev env \<Rightarrow> datetime \<Rightarrow> datetime \<Rightarrow> int \<Rightarrow> string" where
  \<comment> \<open>the time range of the request; an end date after now is replaced by now\<close>
  "request_time_param env start_date end_date delta_hours =
     (let delta_seconds = delta_hours * 3600;
          start_ts = py_int (env_timestamp env start_date);
          end_ts = py_int (env_timestamp env end_date);
          time_param = time_param_str start_ts delta_seconds end_ts;
          now = env_now env
      in if datetime_lt now end_date
         then (let end_date = now;
                   end_ts = py_int (env_timestamp env end_date)
               in time_param_str start_ts delta_seconds end_ts)
         else time_param)"

definition extract_data :: "'dev env \<Rightarrow> string \<Rightarrow> datetime \<Rightarrow> datetime \<Rightarrow> int \<Rightarrow> response" where
  "extract_data env url start_date end_date delta_hours =
     (case env_connect env url of
        Inl auth_error \<Rightarrow> Failure (''Authentication failed: '' @ auth_error)
      | Inr dev \<Rightarrow>
          (case env_fetch env dev (request_time_param env start_date end_date delta_hours) of
             Inl data_error \<Rightarrow>
               Failure (''Failed to read data from device. The device may not have ''
                        @ ''data for this period. Error: '' @ data_error)
           | Inr (rows, ret_regs) \<Rightarrow>
               if length rows < 2
               then Failure (''Not enough data in the specified range. Received only ''
                             @ str_nat (length rows)
                             @ '' rows. The device may not have data for this period.'')
               else
                 let registers = ret_regs;
                     sanitized_registers = make_columns_unique registers;
                     register_mapping = build_register_mapping registers;
                     columns = [''Date'', ''Time'', ''Timestamp''] @ registers
                 in case process_rows (env_fromtimestamp env) rows registers register_mapping of
                      Inl e \<Rightarrow> Failure (''Unexpected error: '' @ error_str e)
                    | Inr data \<Rightarrow>
                        Success \<lparr>res_columns = columns,
                                 res_sanitized_columns = sanitized_registers,
                                 res_register_mapping = register_mapping,
                                 res_data = data,
                                 res_total_records = length data\<rparr>))"

text \<open>
  Examples: a device that answers every request with two readings of one register, one whose
  register is called \<^verbatim>\<open>Timestamp\<close>, and one that answers with a single reading.
\<close>

definition reading :: "real \<Rightarrow> (string \<times> real) list \<Rightarrow> row" where
  "reading t values = \<lparr>ts = t, regs = map_of values\<rparr>"

definition demo_env :: "row list \<Rightarrow> string list \<Rightarrow> unit env" where
  "demo_env rows ret_regs =
     \<lparr>env_connect = (\<lambda>url. Inr ()),
      env_fetch = (\<lambda>dev time_param. Inr (rows, ret_regs)),
      env_now = mk_datetime 2025 10 30 12 0 0 0,
      env_timestamp = (\<lambda>d. 0),
      env_fromtimestamp = utc_fromtimestamp\<rparr>"




section \<open>The sanitizers in the words of the specification\<close>

text \<open>
  The specification speaks of replacing every run of characters outside the class by a
  single underscore; \<open>sub_runs\<close> does that in one pass.
\<close>

function sub_runs :: "string \<Rightarrow> string" where
  "sub_runs [] = []"
| "sub_runs (c # cs) =
     (if allowed c then c # sub_runs cs
      else CHR ''_'' # sub_runs (dropWhile (\<lambda>x. \<not> allowed x) cs))"
  by pat_completeness auto
termination
  by (relation "measure length") (auto simp: le_imp_less_Suc length_dropWhile_le)

section \<open>Properties of the string operations\<close>

fun no_double :: "string \<Rightarrow> bool" where
  "no_double (a # b # cs) = (\<not> (a = CHR ''_'' \<and> b = CHR ''_'') \<and> no_double (b # cs))"
| "no_double cs = True"

lemma set_collapse: "set (collapse_underscores s) \<subseteq> set s"
  by (induction s rule: collapse_underscores.induct) auto

lemma set_strip: "set (strip_underscores s) \<subseteq> set s"
proof -
  have "set (strip_underscores s) \<subseteq> set (dropWhile (\<lambda>c. c = CHR ''_'') s)"
    unfolding strip_underscores_def using set_dropWhileD by fastforce
  also have "\<dots> \<subseteq> set s" using set_dropWhileD by fastforce
  finally show ?thesis .
qed

lemma allowed_sub: "c \<in> set (sub_disallowed s) \<Longrightarrow> allowed c"
  by (auto simp: sub_disallowed_def allowed_def)

lemma collapse_hd: "collapse_underscores (a # s) \<noteq> [] \<and> hd (collapse_underscores (a # s)) = a"
  by (induction "a # s" arbitrary: a s rule: collapse_underscores.induct) auto

lemma no_double_collapse: "no_double (collapse_underscores s)"
proof (induction s rule: collapse_underscores.induct)
  case (1 a b cs)
  then show ?case using collapse_hd[of b cs]
    by (cases "collapse_underscores (b # cs)") auto
qed auto

lemma no_double_tl: "no_double (a # s) \<Longrightarrow> no_double s"
  by (cases s) auto

lemma no_double_dropWhile: "no_double s \<Longrightarrow> no_double (dropWhile P s)"
  by (induction s) (auto dest: no_double_tl)

lemma no_double_snoc:
  "no_double (s @ [a]) = (no_double s \<and> (s = [] \<or> \<not> (last s = CHR ''_'' \<and> a = CHR ''_'')))"
  by (induction s rule: no_double.induct) auto

lemma no_double_Cons:
  "no_double (a # s) = ((s = [] \<or> \<not> (a = CHR ''_'' \<and> hd s = CHR ''_'')) \<and> no_double s)"
  by (cases s) auto

lemma no_double_rev: "no_double (rev s) = no_double s"
  by (induction s) (auto simp: no_double_snoc no_double_Cons last_rev simp del: no_double.simps)

lemma no_double_strip: "no_double s \<Longrightarrow> no_double (strip_underscores s)"
  by (simp add: strip_underscores_def no_double_rev no_double_dropWhile)

lemma collapse_id: "no_double s \<Longrightarrow> collapse_underscores s = s"
  by (induction s rule: collapse_underscores.induct) auto

lemma strip_ends:
  assumes "strip_underscores s \<noteq> []"
  shows "hd (strip_underscores s) \<noteq> CHR ''_'' \<and> last (strip_underscores s) \<noteq> CHR ''_''"
proof -
  let ?P = "\<lambda>c. c = CHR ''_''"
  define u where "u = dropWhile ?P s"
  define v where "v = dropWhile ?P (rev u)"
  have sv: "strip_underscores s = rev v" by (simp add: strip_underscores_def u_def v_def)
  with assms have vne: "v \<noteq> []" by simp
  have "\<not> ?P (hd (dropWhile ?P (rev u)))"
    by (rule hd_dropWhile) (use vne v_def in simp)
  then have hv: "hd v \<noteq> CHR ''_''" by (simp add: v_def)
  have "rev u = takeWhile ?P (rev u) @ v" by (simp add: v_def)
  then have "rev (rev u) = rev (takeWhile ?P (rev u) @ v)" by (rule arg_cong)
  then have ueq: "u = rev v @ rev (takeWhile ?P (rev u))" by simp
  then have "hd u = hd (rev v @ rev (takeWhile ?P (rev u)))" by (rule arg_cong)
  then have hu: "hd u = hd (rev v)" using vne by simp
  have une: "u \<noteq> []" using ueq vne by auto
  have "\<not> ?P (hd (dropWhile ?P s))"
    by (rule hd_dropWhile) (use une u_def in simp)
  then have "hd u \<noteq> CHR ''_''" by (simp add: u_def)
  with hu have "hd (rev v) \<noteq> CHR ''_''" by simp
  moreover have "last (rev v) = hd v" using vne by (simp add: last_rev)
  ultimately show ?thesis using sv hv by simp
qed

lemma strip_id:
  assumes "s = [] \<or> (hd s \<noteq> CHR ''_'' \<and> last s \<noteq> CHR ''_'')"
  shows "strip_underscores s = s"
proof (cases "s = []")
  case True
  then show ?thesis by (simp add: strip_underscores_def)
next
  case False
  with assms have h: "hd s \<noteq> CHR ''_''" and l: "last s \<noteq> CHR ''_''" by auto
  from False h have 1: "dropWhile (\<lambda>c. c = CHR ''_'') s = s" by (cases s) auto
  from False l have "hd (rev s) \<noteq> CHR ''_''" by (simp add: hd_rev)
  with False have 2: "dropWhile (\<lambda>c. c = CHR ''_'') (rev s) = rev s" by (cases "rev s") auto
  show ?thesis by (simp add: strip_underscores_def 1 2)
qed

lemma strip_all_underscores:
  "\<forall>c\<in>set s. c = CHR ''_'' \<Longrightarrow> strip_underscores s = []"
proof -
  assume "\<forall>c\<in>set s. c = CHR ''_''"
  then have h: "dropWhile (\<lambda>c. c = CHR ''_'') s = []" by simp
  show ?thesis unfolding strip_underscores_def h by simp
qed

definition tidy :: "string \<Rightarrow> bool" where
  "tidy s = ((\<forall>c\<in>set s. allowed c) \<and> no_double s \<and>
             (s \<noteq> [] \<longrightarrow> hd s \<noteq> CHR ''_'' \<and> last s \<noteq> CHR ''_''))"

lemma tidy_clean: "tidy (strip_underscores (collapse_underscores (sub_disallowed s)))"
proof -
  let ?c = "collapse_underscores (sub_disallowed s)"
  have "set (strip_underscores ?c) \<subseteq> set (sub_disallowed s)"
    using set_strip[of ?c] set_collapse[of "sub_disallowed s"] by blast
  then have 1: "\<forall>c\<in>set (strip_underscores ?c). allowed c"
    using allowed_sub by blast
  have 2: "no_double (strip_underscores ?c)"
    by (rule no_double_strip) (rule no_double_collapse)
  show ?thesis
    unfolding tidy_def using 1 2 strip_ends[of ?c] by blast
qed

lemma lower_allowed: "allowed c \<Longrightarrow> lower_char c = c"
  by (auto simp: allowed_def lower_char_def Let_def)

lemma plus_not_allowed: "\<not> allowed (CHR ''+'')" "\<not> allowed (CHR ''-'')"
  by (simp_all add: allowed_def)

lemma replace_char_id: "c \<notin> set s \<Longrightarrow> replace_char c r s = s"
  by (induction s) (auto simp: replace_char_def)

lemma sub_disallowed_id: "\<forall>c\<in>set s. allowed c \<Longrightarrow> sub_disallowed s = s"
  by (simp add: sub_disallowed_def map_idI)

lemma lower_id: "\<forall>c\<in>set s. allowed c \<Longrightarrow> lower s = s"
  by (simp add: lower_def lower_allowed map_idI)

lemma tidy_column_fix: "tidy s \<Longrightarrow> sanitize_column_name s = s"
proof -
  assume t: "tidy s"
  then have al: "\<forall>c\<in>set s. allowed c" by (simp add: tidy_def)
  then have np: "CHR ''+'' \<notin> set s" "CHR ''-'' \<notin> set s" using plus_not_allowed by auto
  from t have nd: "no_double s" by (simp add: tidy_def)
  from t have "strip_underscores s = s" by (intro strip_id) (auto simp: tidy_def)
  then show ?thesis
    by (simp add: sanitize_column_name_def lower_id[OF al] replace_char_id np
        sub_disallowed_id[OF al] collapse_id[OF nd])
qed

lemma tidy_column: "tidy (sanitize_column_name s)"
  by (simp add: sanitize_column_name_def tidy_clean)

lemma column_idem: "sanitize_column_name (sanitize_column_name x) = sanitize_column_name x"
  by (rule tidy_column_fix[OF tidy_column])

lemma tidy_table_fix:
  assumes "tidy s" "s \<noteq> []" "\<not> isdigit (hd s)"
  shows "sanitize_table_name s = s"
proof -
  from assms(1) have al: "\<forall>c\<in>set s. allowed c" by (simp add: tidy_def)
  from assms(1) have nd: "no_double s" by (simp add: tidy_def)
  from assms(1) have "strip_underscores s = s" by (intro strip_id) (auto simp: tidy_def)
  then show ?thesis
    using assms(2,3) by (simp add: sanitize_table_name_def lower_id[OF al]
        sub_disallowed_id[OF al] collapse_id[OF nd])
qed

lemma tidy_prefixed:
  assumes "tidy t" "t \<noteq> []"
  shows "tidy (''data_'' @ t)"
proof -
  have "\<forall>c\<in>set ''data_''. allowed c" by (simp add: allowed_def)
  then show ?thesis using assms by (auto simp: tidy_def no_double_Cons simp del: no_double.simps)
qed

lemma table_idem: "sanitize_table_name (sanitize_table_name x) = sanitize_table_name x"
proof -
  define t where "t = strip_underscores (collapse_underscores (sub_disallowed (lower x)))"
  have tt: "tidy t" unfolding t_def by (rule tidy_clean)
  have dc: "sanitize_table_name ''data_client'' = ''data_client''" by code_simp
  have nd: "\<not> isdigit (CHR ''d'')" by (simp add: isdigit_def)
  consider "t = []" | "t \<noteq> []" "isdigit (hd t)" | "t \<noteq> []" "\<not> isdigit (hd t)" by blast
  then show ?thesis
  proof cases
    case 1
    then have "sanitize_table_name x = ''data_client''"
      by (simp add: sanitize_table_name_def t_def[symmetric])
    then show ?thesis using dc by simp
  next
    case 2
    then have r: "sanitize_table_name x = ''data_'' @ t"
      by (simp add: sanitize_table_name_def t_def[symmetric])
    have "sanitize_table_name (''data_'' @ t) = ''data_'' @ t"
      by (rule tidy_table_fix) (use tt 2 nd tidy_prefixed in auto)
    then show ?thesis using r by simp
  next
    case 3
    then have r: "sanitize_table_name x = t"
      by (simp add: sanitize_table_name_def t_def[symmetric])
    show ?thesis unfolding r using tt 3 by (rule tidy_table_fix)
  qed
qed

lemma tidy_shape:
  assumes "tidy s"
  shows "list_all allowed s \<and> collapse_underscores s = s \<and> strip_underscores s = s"
proof -
  from assms have a: "list_all allowed s" by (simp add: tidy_def list_all_iff)
  from assms have "no_double s" by (simp add: tidy_def)
  then have b: "collapse_underscores s = s" by (rule collapse_id)
  from assms have c: "strip_underscores s = s" by (intro strip_id) (auto simp: tidy_def)
  from a b c show ?thesis by blast
qed

lemma tidy_table: "tidy (sanitize_table_name x)"
proof -
  define t where "t = strip_underscores (collapse_underscores (sub_disallowed (lower x)))"
  have tt: "tidy t" unfolding t_def by (rule tidy_clean)
  have dc: "tidy ''data_client''"
    by (simp add: tidy_def allowed_def)
  have r: "sanitize_table_name x =
      (if t = [] then ''data_client'' else if isdigit (hd t) then ''data_'' @ t else t)"
    by (simp add: sanitize_table_name_def t_def[symmetric])
  show ?thesis unfolding r using tt dc tidy_prefixed[of t] by simp
qed

lemma table_nonempty_nodigit:
  "sanitize_table_name x \<noteq> [] \<and> \<not> isdigit (hd (sanitize_table_name x))"
proof -
  define t where "t = strip_underscores (collapse_underscores (sub_disallowed (lower x)))"
  have nd: "\<not> isdigit (CHR ''d'')" by (simp add: isdigit_def)
  have "sanitize_table_name x =
      (if t = [] then ''data_client'' else if isdigit (hd t) then ''data_'' @ t else t)"
    by (simp add: sanitize_table_name_def t_def[symmetric])
  then show ?thesis using nd by auto
qed

lemma column_empty:
  assumes "\<forall>c\<in>set (replace_char (CHR ''-'') ''_'' (replace_char (CHR ''+'') ''_plus'' (lower x))). \<not> allowed c"
  shows "sanitize_column_name x = []"
proof -
  define y where "y = replace_char (CHR ''-'') ''_'' (replace_char (CHR ''+'') ''_plus'' (lower x))"
  from assms have "\<forall>c\<in>set (sub_disallowed y). c = CHR ''_''"
    by (auto simp: sub_disallowed_def y_def)
  then have "\<forall>c\<in>set (collapse_underscores (sub_disallowed y)). c = CHR ''_''"
    using set_collapse by blast
  then have "strip_underscores (collapse_underscores (sub_disallowed y)) = []"
    by (rule strip_all_underscores)
  then show ?thesis by (simp add: sanitize_column_name_def y_def)
qed

lemma collapse_Cons:
  "collapse_underscores (a # s) =
     (if collapse_underscores s \<noteq> [] \<and> a = CHR ''_'' \<and> hd (collapse_underscores s) = CHR ''_''
      then collapse_underscores s else a # collapse_underscores s)"
proof (cases s)
  case Nil
  then show ?thesis by simp
next
  case (Cons b cs)
  then show ?thesis using collapse_hd[of b cs] by simp
qed

lemma collapse_cong:
  assumes "collapse_underscores s = collapse_underscores t"
  shows "collapse_underscores (a # s) = collapse_underscores (a # t)"
proof -
  have "collapse_underscores (a # s) =
     (if collapse_underscores s \<noteq> [] \<and> a = CHR ''_'' \<and> hd (collapse_underscores s) = CHR ''_''
      then collapse_underscores s else a # collapse_underscores s)"
    by (rule collapse_Cons)
  also have "\<dots> =
     (if collapse_underscores t \<noteq> [] \<and> a = CHR ''_'' \<and> hd (collapse_underscores t) = CHR ''_''
      then collapse_underscores t else a # collapse_underscores t)"
    by (simp only: assms)
  also have "\<dots> = collapse_underscores (a # t)"
    by (rule collapse_Cons[symmetric])
  finally show ?thesis .
qed

lemma collapse_skip:
  "collapse_underscores (CHR ''_'' # sub_disallowed cs) =
   collapse_underscores (CHR ''_'' # sub_disallowed (dropWhile (\<lambda>x. \<not> allowed x) cs))"
  by (induction cs) (simp_all add: sub_disallowed_def)

lemma collapse_sub_runs:
  "collapse_underscores (sub_runs s) = collapse_underscores (sub_disallowed s)"
proof (induction s rule: sub_runs.induct)
  case 1
  then show ?case by (simp add: sub_disallowed_def)
next
  case (2 c cs)
  show ?case
  proof (cases "allowed c")
    case True
    with 2 have "collapse_underscores (sub_runs cs) = collapse_underscores (sub_disallowed cs)" by simp
    then have "collapse_underscores (c # sub_runs cs) = collapse_underscores (c # sub_disallowed cs)"
      by (rule collapse_cong)
    with True show ?thesis by (simp add: sub_disallowed_def)
  next
    case False
    with 2 have "collapse_underscores (sub_runs (dropWhile (\<lambda>x. \<not> allowed x) cs))
        = collapse_underscores (sub_disallowed (dropWhile (\<lambda>x. \<not> allowed x) cs))" by simp
    then have "collapse_underscores (CHR ''_'' # sub_runs (dropWhile (\<lambda>x. \<not> allowed x) cs))
        = collapse_underscores (CHR ''_'' # sub_disallowed (dropWhile (\<lambda>x. \<not> allowed x) cs))"
      by (rule collapse_cong)
    also have "\<dots> = collapse_underscores (CHR ''_'' # sub_disallowed cs)"
      by (rule collapse_skip[symmetric])
    finally show ?thesis using False by (simp add: sub_disallowed_def)
  qed
qed

section \<open>Properties of the collision loop\<close>

lemma while_in_seen_fresh: "while_in_seen original seen sanitized counter |\<notin>| seen"
proof (induction original seen sanitized counter rule: while_in_seen.induct)
  case (1 original seen sanitized counter)
  show ?case
  proof (cases "sanitized |\<in>| seen")
    case True
    with 1 show ?thesis by (subst while_in_seen.simps) simp
  next
    case False
    then show ?thesis by (subst while_in_seen.simps) simp
  qed
qed

lemma while_in_seen_keep:
  "sanitized |\<notin>| seen \<Longrightarrow> while_in_seen original seen sanitized counter = sanitized"
  by (subst while_in_seen.simps) simp

lemma while_in_seen_suffix:
  "sanitized |\<in>| seen \<Longrightarrow>
   \<exists>k. counter \<le> k \<and> while_in_seen original seen sanitized counter = suffixed original k \<and>
       (\<forall>j. counter \<le> j \<and> j < k \<longrightarrow> suffixed original j |\<in>| seen)"
proof (induction original seen sanitized counter rule: while_in_seen.induct)
  case (1 original seen sanitized counter)
  from 1(2) have step: "while_in_seen original seen sanitized counter
      = while_in_seen original seen (suffixed original counter) (counter + 1)"
    by (subst while_in_seen.simps) simp
  show ?case
  proof (cases "suffixed original counter |\<in>| seen")
    case True
    from 1(1)[OF 1(2) True] obtain k where k: "counter + 1 \<le> k"
        "while_in_seen original seen (suffixed original counter) (counter + 1) = suffixed original k"
        "\<forall>j. counter + 1 \<le> j \<and> j < k \<longrightarrow> suffixed original j |\<in>| seen"
      by blast
    have "\<forall>j. counter \<le> j \<and> j < k \<longrightarrow> suffixed original j |\<in>| seen"
    proof (intro allI impI)
      fix j assume j: "counter \<le> j \<and> j < k"
      show "suffixed original j |\<in>| seen"
      proof (cases "j = counter")
        case True
        then show ?thesis using \<open>suffixed original counter |\<in>| seen\<close> by simp
      next
        case False
        with j have "counter + 1 \<le> j \<and> j < k" by simp
        with k(3) show ?thesis by blast
      qed
    qed
    with k(1,2) step show ?thesis by (intro exI[of _ k]) simp
  next
    case False
    then have "while_in_seen original seen (suffixed original counter) (counter + 1)
        = suffixed original counter" by (rule while_in_seen_keep)
    with step have "while_in_seen original seen sanitized counter = suffixed original counter"
      by simp
    moreover have "\<forall>j. counter \<le> j \<and> j < counter \<longrightarrow> suffixed original j |\<in>| seen"
      by auto
    ultimately show ?thesis by (intro exI[of _ counter]) simp
  qed
qed

lemma unique_loop_snoc:
  "fset seen = set unique_columns \<Longrightarrow>
   unique_loop (columns @ [col]) seen unique_columns =
     (let u = unique_loop columns seen unique_columns
      in u @ [while_in_seen (sanitize_column_name col) (fset_of_list u) (sanitize_column_name col) 2])"
proof (induction columns arbitrary: seen unique_columns)
  case Nil
  then have "seen = fset_of_list unique_columns"
    by (metis fset_inverse fset_of_list.abs_eq fset_of_list.rep_eq)
  then show ?case by (simp add: Let_def)
next
  case (Cons c columns)
  show ?case
    by (simp add: Let_def Cons.IH Cons.prems)
qed

lemma make_columns_unique_snoc:
  "make_columns_unique (columns @ [col]) =
     (let u = make_columns_unique columns
      in u @ [while_in_seen (sanitize_column_name col) (fset_of_list u) (sanitize_column_name col) 2])"
  unfolding make_columns_unique_def by (rule unique_loop_snoc) simp

lemma length_make_columns_unique: "length (make_columns_unique columns) = length columns"
  by (induction columns rule: rev_induct)
     (simp_all add: make_columns_unique_snoc Let_def, simp add: make_columns_unique_def)

lemma distinct_make_columns_unique: "distinct (make_columns_unique columns)"
proof (induction columns rule: rev_induct)
  case Nil
  then show ?case by (simp add: make_columns_unique_def)
next
  case (snoc col columns)
  let ?u = "make_columns_unique columns"
  have "while_in_seen (sanitize_column_name col) (fset_of_list ?u) (sanitize_column_name col) 2
        |\<notin>| fset_of_list ?u" by (rule while_in_seen_fresh)
  then have "while_in_seen (sanitize_column_name col) (fset_of_list ?u) (sanitize_column_name col) 2
        \<notin> set ?u" by (simp add: fset_of_list.rep_eq)
  with snoc show ?case by (simp add: make_columns_unique_snoc Let_def)
qed

lemma take_make_columns_unique:
  "take n (make_columns_unique columns) = make_columns_unique (take n columns)"
proof (induction columns rule: rev_induct)
  case Nil
  then show ?case by (simp add: make_columns_unique_def)
next
  case (snoc col columns)
  show ?case
  proof (cases "n \<le> length columns")
    case True
    then show ?thesis using snoc
      by (simp add: make_columns_unique_snoc Let_def length_make_columns_unique)
  next
    case False
    then show ?thesis
      by (simp add: length_make_columns_unique)
  qed
qed

lemma nth_make_columns_unique:
  assumes "i < length columns"
  shows "make_columns_unique columns ! i =
     while_in_seen (sanitize_column_name (columns ! i))
       (fset_of_list (take i (make_columns_unique columns)))
       (sanitize_column_name (columns ! i)) 2"
proof -
  have "make_columns_unique columns ! i = take (Suc i) (make_columns_unique columns) ! i" by simp
  also have "\<dots> = make_columns_unique (take i columns @ [columns ! i]) ! i"
    using assms by (simp add: take_make_columns_unique take_Suc_conv_app_nth)
  also have "\<dots> = while_in_seen (sanitize_column_name (columns ! i))
       (fset_of_list (make_columns_unique (take i columns)))
       (sanitize_column_name (columns ! i)) 2"
    using assms by (simp add: make_columns_unique_snoc Let_def nth_append length_make_columns_unique)
  finally show ?thesis by (simp add: take_make_columns_unique)
qed

section \<open>Claims about the name sanitizers\<close>

lemma while_in_seen_empty_0: "while_in_seen [] {||} [] 2 = []"
  by (subst while_in_seen.simps) simp

lemma while_in_seen_empty_1: "while_in_seen [] {|[]|} [] 2 = ''_2''"
proof -
  have s: "suffixed [] 2 = ''_2''" by code_simp
  show ?thesis
    by (subst while_in_seen.simps, subst while_in_seen.simps) (simp add: s)
qed

lemma while_in_seen_empty_2: "while_in_seen [] {|''_2'', []|} [] 2 = ''_3''"
proof -
  have s2: "suffixed [] 2 = ''_2''" by code_simp
  have s3: "suffixed [] 3 = ''_3''" by code_simp
  show ?thesis
    by (subst while_in_seen.simps, subst while_in_seen.simps, subst while_in_seen.simps)
       (simp add: s2 s3)
qed

text \<open>
  C7 (as stated, refuted).  The claim gives both sanitizers the step from \<^verbatim>\<open>+\<close> to
  \<^verbatim>\<open>_plus\<close> and has the literal \<^verbatim>\<open>data_\<close> prefixed to an empty result.  The table sanitizer
  has no such step: it turns \<^verbatim>\<open>a+b\<close> into \<^verbatim>\<open>a_b\<close>, not \<^verbatim>\<open>a_plus_b\<close>; and for a name that
  sanitizes to nothing, such as \<^verbatim>\<open>()\<close>, it returns the fixed name \<^verbatim>\<open>data_client\<close>, not
  \<^verbatim>\<open>data_\<close>.
\<close>

theorem C7_counterexample:
  "sanitize_table_name ''a+b'' = ''a_b'' \<and> sanitize_table_name ''a+b'' \<noteq> ''a_plus_b'' \<and>
   sanitize_table_name ''()'' = ''data_client'' \<and> sanitize_table_name ''()'' \<noteq> ''data_''"
  by code_simp

text \<open>
  C7 (amended).  The column sanitizer lower-cases, maps \<^verbatim>\<open>+\<close> to \<^verbatim>\<open>_plus\<close> and \<^verbatim>\<open>-\<close> to
  \<^verbatim>\<open>_\<close>, replaces every run of characters outside \<^verbatim>\<open>[a-z0-9_]\<close> by one underscore,
  collapses repeated underscores and trims them at both ends.  The table sanitizer
  lower-cases, replaces every run of characters outside the class (\<^verbatim>\<open>+\<close> and \<^verbatim>\<open>-\<close> among
  them: it has no step to \<^verbatim>\<open>_plus\<close>) by one underscore, collapses and trims; it then
  prefixes \<^verbatim>\<open>data_\<close> when the result starts with a digit and returns \<^verbatim>\<open>data_client\<close> when
  the result is empty, so that a table name is never empty and never starts with a digit.
  What either sanitizer returns consists of characters of the class only, has no repeated
  underscore and no underscore at either end.  The examples of the two docstrings hold.
\<close>

theorem C7_sanitizers_amended:
  "sanitize_column_name x =
     strip_underscores (collapse_underscores (sub_runs
       (replace_char (CHR ''-'') ''_'' (replace_char (CHR ''+'') ''_plus'' (lower x))))) \<and>
   list_all allowed (sanitize_column_name x) \<and>
   collapse_underscores (sanitize_column_name x) = sanitize_column_name x \<and>
   strip_underscores (sanitize_column_name x) = sanitize_column_name x \<and>
   sanitize_table_name x =
     (let t = strip_underscores (collapse_underscores (sub_runs (lower x)))
      in if t = [] then ''data_client'' else if isdigit (hd t) then ''data_'' @ t else t) \<and>
   sanitize_table_name x \<noteq> [] \<and> \<not> isdigit (hd (sanitize_table_name x)) \<and>
   list_all allowed (sanitize_table_name x) \<and>
   collapse_underscores (sanitize_table_name x) = sanitize_table_name x \<and>
   strip_underscores (sanitize_table_name x) = sanitize_table_name x \<and>
   sanitize_column_name ''Andrea (Delta)'' = ''andrea_delta'' \<and>
   sanitize_column_name ''Inv 6-8+'' = ''inv_6_8_plus'' \<and>
   sanitize_table_name ''Client 1'' = ''client_1'' \<and>
   sanitize_table_name ''1 Client'' = ''data_1_client''"
proof -
  have c: "sanitize_column_name x =
     strip_underscores (collapse_underscores (sub_runs
       (replace_char (CHR ''-'') ''_'' (replace_char (CHR ''+'') ''_plus'' (lower x)))))"
    by (simp add: sanitize_column_name_def collapse_sub_runs)
  have t: "sanitize_table_name x =
     (let t = strip_underscores (collapse_underscores (sub_runs (lower x)))
      in if t = [] then ''data_client'' else if isdigit (hd t) then ''data_'' @ t else t)"
    by (simp add: sanitize_table_name_def collapse_sub_runs Let_def)
  note tc = tidy_shape[OF tidy_column[of x]]
  note tt = tidy_shape[OF tidy_table[of x]]
  have e1: "sanitize_column_name ''Andrea (Delta)'' = ''andrea_delta''" by code_simp
  have e2: "sanitize_column_name ''Inv 6-8+'' = ''inv_6_8_plus''" by code_simp
  have e3: "sanitize_table_name ''Client 1'' = ''client_1''" by code_simp
  have e4: "sanitize_table_name ''1 Client'' = ''data_1_client''" by code_simp
  from c tc t table_nonempty_nodigit[of x] tt e1 e2 e3 e4 show ?thesis by (intro conjI) blast+
qed

text \<open>
  C8.  Sanitizing an already sanitized name changes nothing, for the column sanitizer and
  for the table sanitizer.
\<close>

theorem C8_sanitize_idempotent:
  "sanitize_column_name (sanitize_column_name x) = sanitize_column_name x \<and>
   sanitize_table_name (sanitize_table_name x) = sanitize_table_name x"
  using column_idem[of x] table_idem[of x] by (rule conjI)

text \<open>
  C9.  A label that, after lower-casing and the \<^verbatim>\<open>+\<close> and \<^verbatim>\<open>-\<close> substitutions, has no
  character of \<^verbatim>\<open>[a-z0-9_]\<close> is sanitized to the empty string by the column sanitizer, with
  no fallback; three such labels in a row get the column names \<^verbatim>\<open>""\<close>, \<^verbatim>\<open>_2\<close> and \<^verbatim>\<open>_3\<close>
  from \<^verbatim>\<open>make_columns_unique\<close>.
\<close>

theorem C9_column_empty:
  assumes "list_all (\<lambda>c. \<not> allowed c)
             (replace_char (CHR ''-'') ''_'' (replace_char (CHR ''+'') ''_plus'' (lower x)))"
    and "list_all (\<lambda>c. \<not> allowed c)
             (replace_char (CHR ''-'') ''_'' (replace_char (CHR ''+'') ''_plus'' (lower y)))"
    and "list_all (\<lambda>c. \<not> allowed c)
             (replace_char (CHR ''-'') ''_'' (replace_char (CHR ''+'') ''_plus'' (lower z)))"
  shows "sanitize_column_name x = [] \<and> make_columns_unique [x, y, z] = ['''', ''_2'', ''_3'']"
proof -
  have x: "sanitize_column_name x = []" using assms(1) by (intro column_empty) (simp add: list_all_iff)
  have y: "sanitize_column_name y = []" using assms(2) by (intro column_empty) (simp add: list_all_iff)
  have z: "sanitize_column_name z = []" using assms(3) by (intro column_empty) (simp add: list_all_iff)
  have "make_columns_unique [x, y, z] = ['''', ''_2'', ''_3'']"
    by (simp add: make_columns_unique_def x y z while_in_seen_empty_0 while_in_seen_empty_1
        while_in_seen_empty_2)
  with x show ?thesis by simp
qed

theorem C9_column_empty_witness:
  "list_all (\<lambda>c. \<not> allowed c)
     (replace_char (CHR ''-'') ''_'' (replace_char (CHR ''+'') ''_plus'' (lower ''()''))) \<and>
   list_all (\<lambda>c. \<not> allowed c)
     (replace_char (CHR ''-'') ''_'' (replace_char (CHR ''+'') ''_plus'' (lower ''***''))) \<and>
   sanitize_column_name ''()'' = [] \<and>
   make_columns_unique [''()'', ''***'', ''()''] = ['''', ''_2'', ''_3'']"
proof -
  have a: "list_all (\<lambda>c. \<not> allowed c)
     (replace_char (CHR ''-'') ''_'' (replace_char (CHR ''+'') ''_plus'' (lower ''()'')))"
    by code_simp
  have b: "list_all (\<lambda>c. \<not> allowed c)
     (replace_char (CHR ''-'') ''_'' (replace_char (CHR ''+'') ''_plus'' (lower ''***'')))"
    by code_simp
  show ?thesis using a b C9_column_empty[OF a b a] by simp
qed

text \<open>
  C3.  \<^verbatim>\<open>make_columns_unique\<close> returns as many names as it was given labels and no name
  twice.  The name at position \<open>i\<close> comes from the label at position \<open>i\<close>: it is the
  sanitized label when no earlier position was assigned that name, and otherwise the sanitized
  label with the suffix \<^verbatim>\<open>_k\<close> for the first \<open>k\<close> from 2 on whose suffixed name no earlier
  position was assigned.  The three labels of the specification's example get the names the
  specification gives.
\<close>

theorem C3_make_columns_unique:
  "length (make_columns_unique columns) = length columns \<and>
   distinct (make_columns_unique columns) \<and>
   (\<forall>i<length columns.
      (sanitize_column_name (columns ! i) \<notin> set (take i (make_columns_unique columns)) \<longrightarrow>
         make_columns_unique columns ! i = sanitize_column_name (columns ! i)) \<and>
      (sanitize_column_name (columns ! i) \<in> set (take i (make_columns_unique columns)) \<longrightarrow>
         (\<exists>k. 2 \<le> k \<and>
            make_columns_unique columns ! i = suffixed (sanitize_column_name (columns ! i)) k \<and>
            (\<forall>j. 2 \<le> j \<and> j < k \<longrightarrow>
               suffixed (sanitize_column_name (columns ! i)) j
                 \<in> set (take i (make_columns_unique columns)))))) \<and>
   make_columns_unique [''Andrea (Delta)'', ''Andrea (Delta)'', ''Inv 6-8+''] =
     [''andrea_delta'', ''andrea_delta_2'', ''inv_6_8_plus'']"
proof (intro conjI allI impI)
  show "length (make_columns_unique columns) = length columns"
    by (rule length_make_columns_unique)
  show "distinct (make_columns_unique columns)"
    by (rule distinct_make_columns_unique)
  show "make_columns_unique [''Andrea (Delta)'', ''Andrea (Delta)'', ''Inv 6-8+''] =
     [''andrea_delta'', ''andrea_delta_2'', ''inv_6_8_plus'']"
    by code_simp
next
  fix i
  assume i: "i < length columns"
    and n: "sanitize_column_name (columns ! i) \<notin> set (take i (make_columns_unique columns))"
  from n have "sanitize_column_name (columns ! i) |\<notin>| fset_of_list (take i (make_columns_unique columns))"
    by (simp add: fset_of_list.rep_eq)
  then show "make_columns_unique columns ! i = sanitize_column_name (columns ! i)"
    by (simp add: nth_make_columns_unique[OF i] while_in_seen_keep)
next
  fix i
  assume i: "i < length columns"
    and n: "sanitize_column_name (columns ! i) \<in> set (take i (make_columns_unique columns))"
  from n have "sanitize_column_name (columns ! i) |\<in>| fset_of_list (take i (make_columns_unique columns))"
    by (simp add: fset_of_list.rep_eq)
  from while_in_seen_suffix[OF this, of 2 "sanitize_column_name (columns ! i)"]
  show "\<exists>k. 2 \<le> k \<and>
            make_columns_unique columns ! i = suffixed (sanitize_column_name (columns ! i)) k \<and>
            (\<forall>j. 2 \<le> j \<and> j < k \<longrightarrow>
               suffixed (sanitize_column_name (columns ! i)) j
                 \<in> set (take i (make_columns_unique columns)))"
    by (simp add: nth_make_columns_unique[OF i] fset_of_list.rep_eq)
qed

theorem C3_make_columns_unique_witness:
  "length (make_columns_unique [''Andrea (Delta)'', ''Andrea (Delta)'', ''Inv 6-8+'']) = 3 \<and>
   distinct (make_columns_unique [''Andrea (Delta)'', ''Andrea (Delta)'', ''Inv 6-8+'']) \<and>
   (\<exists>k. 2 \<le> k \<and>
      make_columns_unique [''Andrea (Delta)'', ''Andrea (Delta)'', ''Inv 6-8+''] ! 1
        = suffixed ''andrea_delta'' k)"
proof -
  let ?cols = "[''Andrea (Delta)'', ''Andrea (Delta)'', ''Inv 6-8+'']"
  note t = C3_make_columns_unique[of ?cols]
  have s: "sanitize_column_name ''Andrea (Delta)'' = ''andrea_delta''" by code_simp
  from t have out: "make_columns_unique ?cols = [''andrea_delta'', ''andrea_delta_2'', ''inv_6_8_plus'']"
    by blast
  from t have l: "length (make_columns_unique ?cols) = 3" by simp
  from t have d: "distinct (make_columns_unique ?cols)" by blast
  have i: "(1::nat) < length ?cols" by simp
  from t have "\<forall>i<length ?cols.
      (sanitize_column_name (?cols ! i) \<in> set (take i (make_columns_unique ?cols)) \<longrightarrow>
         (\<exists>k. 2 \<le> k \<and>
            make_columns_unique ?cols ! i = suffixed (sanitize_column_name (?cols ! i)) k))"
    by blast
  from this[rule_format, OF i] have "\<exists>k. 2 \<le> k \<and> make_columns_unique ?cols ! 1 = suffixed ''andrea_delta'' k"
    by (simp add: s out)
  with l d show ?thesis by blast
qed

section \<open>Claims about the tariff classifier\<close>

lemmas tariff_eval_defs = classify_tariff_def classify_weekday_def weekday_def ymd2ord_def
  days_before_year_def days_before_month_def is_leap_def mk_datetime_def mk_time_def time_le_def
  time_lt_def seconds_of_day_def Let_def

lemma classify_hm:
  assumes "dt_hour d < 24" "dt_minute d < 60" "dt_second d < 60" "weekday d \<le> 4"
  shows "classify_tariff d =
     (if 64800 \<le> seconds_of_day d \<and> seconds_of_day d < 79200 then Punta
      else if (21600 \<le> seconds_of_day d \<and> seconds_of_day d < 36000)
            \<or> (79200 \<le> seconds_of_day d \<and> seconds_of_day d \<le> 86399) then Intermedio
      else Base)"
proof -
  have cw: "classify_tariff d = classify_weekday (mk_time (dt_hour d) (dt_minute d) 0)"
    using assms(4) by (simp add: classify_tariff_def Let_def)
  have w: "classify_weekday (mk_time (dt_hour d) (dt_minute d) 0) =
      (if 18 \<le> dt_hour d \<and> dt_hour d < 22 then Punta
       else if (6 \<le> dt_hour d \<and> dt_hour d < 10) \<or> 22 \<le> dt_hour d then Intermedio else Base)"
    using assms(1,2)
    by (auto simp: classify_weekday_def mk_time_def time_le_def time_lt_def Let_def)
  have s: "seconds_of_day d = dt_hour d * 3600 + dt_minute d * 60 + dt_second d"
    by (simp add: seconds_of_day_def)
  show ?thesis unfolding cw w s using assms(1,2,3) by auto
qed

lemma weekday_le_6: "weekday d \<le> 6"
  by (simp add: weekday_def)

text \<open>
  C2.  The classifier returns one of Base, Intermedio (intermediate) and Punta (peak).  On
  Saturday (weekday 5) and Sunday (weekday 6) it returns Base whatever the time.  From Monday
  to Friday, with the time of day read in whole seconds, it returns Punta from 18:00:00 up to
  but not including 22:00:00, Intermedio from 06:00:00 up to but not including 10:00:00 and
  from 22:00:00 up to and including 23:59:59, and Base at every other time.  Thursday
  2025-10-30 is classified Intermedio at 08:00, Base at 12:00, Punta at 19:00 and Intermedio
  at 23:00; Saturday 2025-11-01 at 12:00 and Sunday 2025-11-02 at 19:00 are Base.
\<close>

theorem C2_classify_tariff:
  "classify_tariff d \<in> {Base, Intermedio, Punta} \<and>
   weekday d \<le> 6 \<and>
   (weekday d = 5 \<or> weekday d = 6 \<longrightarrow> classify_tariff d = Base) \<and>
   (weekday d \<le> 4 \<and> dt_hour d < 24 \<and> dt_minute d < 60 \<and> dt_second d < 60 \<longrightarrow>
      classify_tariff d =
        (if 18 * 3600 \<le> seconds_of_day d \<and> seconds_of_day d < 22 * 3600 then Punta
         else if (6 * 3600 \<le> seconds_of_day d \<and> seconds_of_day d < 10 * 3600)
               \<or> (22 * 3600 \<le> seconds_of_day d \<and> seconds_of_day d \<le> 23 * 3600 + 59 * 60 + 59)
         then Intermedio
         else Base)) \<and>
   weekday (mk_datetime 2025 10 30 0 0 0 0) = 3 \<and>
   classify_tariff (mk_datetime 2025 10 30 8 0 0 0) = Intermedio \<and>
   classify_tariff (mk_datetime 2025 10 30 12 0 0 0) = Base \<and>
   classify_tariff (mk_datetime 2025 10 30 19 0 0 0) = Punta \<and>
   classify_tariff (mk_datetime 2025 10 30 23 0 0 0) = Intermedio \<and>
   weekday (mk_datetime 2025 11 1 12 0 0 0) = 5 \<and>
   classify_tariff (mk_datetime 2025 11 1 12 0 0 0) = Base \<and>
   weekday (mk_datetime 2025 11 2 19 0 0 0) = 6 \<and>
   classify_tariff (mk_datetime 2025 11 2 19 0 0 0) = Base"
proof -
  have 1: "classify_tariff d \<in> {Base, Intermedio, Punta}"
    by (cases "classify_tariff d") simp_all
  have 2: "weekday d = 5 \<or> weekday d = 6 \<longrightarrow> classify_tariff d = Base"
    by (auto simp: classify_tariff_def Let_def)
  have 3: "weekday d \<le> 4 \<and> dt_hour d < 24 \<and> dt_minute d < 60 \<and> dt_second d < 60 \<longrightarrow>
      classify_tariff d =
        (if 18 * 3600 \<le> seconds_of_day d \<and> seconds_of_day d < 22 * 3600 then Punta
         else if (6 * 3600 \<le> seconds_of_day d \<and> seconds_of_day d < 10 * 3600)
               \<or> (22 * 3600 \<le> seconds_of_day d \<and> seconds_of_day d \<le> 23 * 3600 + 59 * 60 + 59)
         then Intermedio
         else Base)"
    using classify_hm[of d] by simp
  have 4: "weekday (mk_datetime 2025 10 30 0 0 0 0) = 3" by (simp add: tariff_eval_defs)
  have 5: "classify_tariff (mk_datetime 2025 10 30 8 0 0 0) = Intermedio" by (simp add: tariff_eval_defs)
  have 6: "classify_tariff (mk_datetime 2025 10 30 12 0 0 0) = Base" by (simp add: tariff_eval_defs)
  have 7: "classify_tariff (mk_datetime 2025 10 30 19 0 0 0) = Punta" by (simp add: tariff_eval_defs)
  have 8: "classify_tariff (mk_datetime 2025 10 30 23 0 0 0) = Intermedio" by (simp add: tariff_eval_defs)
  have 9: "weekday (mk_datetime 2025 11 1 12 0 0 0) = 5" by (simp add: tariff_eval_defs)
  have 10: "classify_tariff (mk_datetime 2025 11 1 12 0 0 0) = Base" by (simp add: tariff_eval_defs)
  have 11: "weekday (mk_datetime 2025 11 2 19 0 0 0) = 6" by (simp add: tariff_eval_defs)
  have 12: "classify_tariff (mk_datetime 2025 11 2 19 0 0 0) = Base" by (simp add: tariff_eval_defs)
  from 1 weekday_le_6[of d] 2 3 4 5 6 7 8 9 10 11 12 show ?thesis by (intro conjI)
qed

theorem C2_classify_tariff_witness:
  "weekday (mk_datetime 2025 10 31 23 59 59 0) = 4 \<and>
   seconds_of_day (mk_datetime 2025 10 31 23 59 59 0) = 86399 \<and>
   classify_tariff (mk_datetime 2025 10 31 23 59 59 0) = Intermedio \<and>
   seconds_of_day (mk_datetime 2025 10 31 17 59 59 0) = 64799 \<and>
   classify_tariff (mk_datetime 2025 10 31 17 59 59 0) = Base \<and>
   classify_tariff (mk_datetime 2025 11 1 19 0 0 0) = Base"
proof -
  let ?a = "mk_datetime 2025 10 31 23 59 59 0"
  let ?b = "mk_datetime 2025 10 31 17 59 59 0"
  let ?c = "mk_datetime 2025 11 1 19 0 0 0"
  have wa: "weekday ?a = 4" by (simp add: tariff_eval_defs)
  have wb: "weekday ?b = 4" by (simp add: tariff_eval_defs)
  have wc: "weekday ?c = 5" by (simp add: tariff_eval_defs)
  have sa: "seconds_of_day ?a = 86399" by (simp add: tariff_eval_defs)
  have sb: "seconds_of_day ?b = 64799" by (simp add: tariff_eval_defs)
  have fa: "dt_hour ?a < 24 \<and> dt_minute ?a < 60 \<and> dt_second ?a < 60" by (simp add: mk_datetime_def)
  have fb: "dt_hour ?b < 24 \<and> dt_minute ?b < 60 \<and> dt_second ?b < 60" by (simp add: mk_datetime_def)
  have "classify_tariff ?a = Intermedio"
    using C2_classify_tariff[of ?a] wa sa fa by simp
  moreover have "classify_tariff ?b = Base"
    using C2_classify_tariff[of ?b] wb sb fb by simp
  moreover have "classify_tariff ?c = Base"
    using C2_classify_tariff[of ?c] wc by simp
  ultimately show ?thesis using wa sa sb by simp
qed

text \<open>
  C10.  Two timestamps with the same weekday, hour and minute get the same tariff: the
  seconds and microseconds play no part, so a weekday 23:59:59.999999 is classified as
  23:59:00 is.
\<close>

theorem C10_seconds_irrelevant:
  "weekday a = weekday b \<and> dt_hour a = dt_hour b \<and> dt_minute a = dt_minute b \<longrightarrow>
     classify_tariff a = classify_tariff b"
  by (simp add: classify_tariff_def Let_def)

theorem C10_seconds_irrelevant_witness:
  "classify_tariff (mk_datetime 2025 10 30 23 59 59 999999) =
     classify_tariff (mk_datetime 2025 10 30 23 59 0 0)"
proof -
  let ?a = "mk_datetime 2025 10 30 23 59 59 999999"
  let ?b = "mk_datetime 2025 10 30 23 59 0 0"
  have "weekday ?a = weekday ?b \<and> dt_hour ?a = dt_hour ?b \<and> dt_minute ?a = dt_minute ?b"
    by (simp add: weekday_def mk_datetime_def)
  with C10_seconds_irrelevant[of ?a ?b] show ?thesis by blast
qed

section \<open>Properties of the reducer\<close>

lemma arv_ok:
  "set registers \<subseteq> dom m \<Longrightarrow> \<exists>r'. add_register_values d m registers r = Inr r'"
proof (induction registers arbitrary: r)
  case Nil
  then show ?case by simp
next
  case (Cons reg registers)
  then obtain c where c: "m reg = Some c" by auto
  from Cons have "set registers \<subseteq> dom m" by simp
  from Cons.IH[OF this] show ?case by (simp add: c Let_def)
qed

lemma arv_other:
  "add_register_values d m registers r = Inr r' \<Longrightarrow>
   \<forall>reg\<in>set registers. m reg \<noteq> Some k \<Longrightarrow> map_of r' k = map_of r k"
proof (induction registers arbitrary: r)
  case Nil
  then show ?case by simp
next
  case (Cons reg registers)
  from Cons.prems(1) obtain c where c: "m reg = Some c"
    by (cases "m reg") (simp_all add: Let_def)
  with Cons.prems(2) have ck: "c \<noteq> k" by auto
  from Cons.prems(1) c have
    "add_register_values d m registers
       (AList.update c (PFloat (case pq_accu d reg of Some v \<Rightarrow> v | None \<Rightarrow> 0)) r) = Inr r'"
    by (simp add: Let_def)
  from Cons.IH[OF this] Cons.prems(2) have
    "map_of r' k = map_of (AList.update c (PFloat (case pq_accu d reg of Some v \<Rightarrow> v | None \<Rightarrow> 0)) r) k"
    by simp
  with ck show ?case by (simp add: update_conv')
qed

lemma arv_value:
  "add_register_values d m registers r = Inr r' \<Longrightarrow> reg \<in> set registers \<Longrightarrow> m reg = Some c \<Longrightarrow>
   \<forall>reg'\<in>set registers. m reg' = Some c \<longrightarrow> reg' = reg \<Longrightarrow>
   map_of r' c = Some (PFloat (case pq_accu d reg of Some v \<Rightarrow> v | None \<Rightarrow> 0))"
proof (induction registers arbitrary: r)
  case Nil
  then show ?case by simp
next
  case (Cons reg0 registers)
  from Cons.prems(1) obtain c0 where c0: "m reg0 = Some c0"
    by (cases "m reg0") (simp_all add: Let_def)
  let ?r1 = "AList.update c0 (PFloat (case pq_accu d reg0 of Some v \<Rightarrow> v | None \<Rightarrow> 0)) r"
  from Cons.prems(1) c0 have step: "add_register_values d m registers ?r1 = Inr r'"
    by (simp add: Let_def)
  show ?case
  proof (cases "reg \<in> set registers")
    case True
    from Cons.prems(4) have "\<forall>reg'\<in>set registers. m reg' = Some c \<longrightarrow> reg' = reg" by simp
    from Cons.IH[OF step True Cons.prems(3) this] show ?thesis .
  next
    case False
    with Cons.prems(2) have eq: "reg0 = reg" by simp
    with c0 Cons.prems(3) have cc: "c0 = c" by simp
    from Cons.prems(4) False have "\<forall>reg'\<in>set registers. m reg' \<noteq> Some c" by auto
    from arv_other[OF step this] have "map_of r' c = map_of ?r1 c" .
    then show ?thesis using eq cc by (simp add: update_conv')
  qed
qed

lemma process_loop_ok:
  "\<forall>i\<in>set is. \<exists>r. body i = Inr r \<Longrightarrow>
   process_loop body is data = Inr (data @ map (\<lambda>i. projr (body i)) is)"
proof (induction "is" arbitrary: data)
  case Nil
  then show ?case by simp
next
  case (Cons i "is")
  then obtain r where r: "body i = Inr r" by auto
  from Cons have "\<forall>i\<in>set is. \<exists>r. body i = Inr r" by simp
  from Cons.IH[OF this, of "data @ [r]"] show ?case by (simp add: r)
qed

lemma process_pair_ok:
  "set registers \<subseteq> dom m \<Longrightarrow> \<exists>r. process_pair ft a b registers m = Inr r"
  unfolding process_pair_def Let_def by (rule arv_ok)

lemma process_rows_ok:
  assumes "set registers \<subseteq> dom m"
  shows "\<exists>data. process_rows ft rows registers m = Inr data \<and> length data = length rows - 1 \<and>
     (\<forall>i<length rows - 1. process_pair ft (rows ! i) (rows ! (i + 1)) registers m = Inr (data ! i))"
proof -
  let ?body = "\<lambda>i. process_pair ft (rows ! i) (rows ! (i + 1)) registers m"
  have all: "\<forall>i\<in>set [0..<length rows - 1]. \<exists>r. ?body i = Inr r"
    using process_pair_ok[OF assms] by blast
  from process_loop_ok[OF all, of "[]"]
  have eq: "process_rows ft rows registers m = Inr (map (\<lambda>i. projr (?body i)) [0..<length rows - 1])"
    by (simp add: process_rows_def)
  have "\<forall>i<length rows - 1. ?body i = Inr (map (\<lambda>i. projr (?body i)) [0..<length rows - 1] ! i)"
  proof (intro allI impI)
    fix i assume i: "i < length rows - 1"
    from process_pair_ok[OF assms, of ft "rows ! i" "rows ! (i + 1)"] obtain r where "?body i = Inr r" by blast
    then show "?body i = Inr (map (\<lambda>i. projr (?body i)) [0..<length rows - 1] ! i)"
      using i by simp
  qed
  with eq show ?thesis by (intro exI[of _ "map (\<lambda>i. projr (?body i)) [0..<length rows - 1]"]) simp
qed

lemma dict_of_pairs_fold:
  "fold (\<lambda>(k, v) m. m(k \<mapsto> v)) ps m0 = m0 ++ map_of (rev ps)"
proof (induction ps arbitrary: m0)
  case Nil
  then show ?case by simp
next
  case (Cons p ps)
  obtain k v where p: "p = (k, v)" by (cases p)
  have h: "m0(k \<mapsto> v) ++ map_of (rev ps) = m0 ++ (map_of [(k, v)] ++ map_of (rev ps))"
    by (auto simp: map_add_def fun_eq_iff split: option.splits)
  have "fold (\<lambda>(k, v) m. m(k \<mapsto> v)) (p # ps) m0 = fold (\<lambda>(k, v) m. m(k \<mapsto> v)) ps (m0(k \<mapsto> v))"
    unfolding p by simp
  also have "\<dots> = m0(k \<mapsto> v) ++ map_of (rev ps)" by (rule Cons.IH)
  also have "\<dots> = m0 ++ (map_of [(k, v)] ++ map_of (rev ps))" by (rule h)
  also have "map_of [(k, v)] ++ map_of (rev ps) = map_of (rev ps @ [(k, v)])"
    by (rule map_of_append[symmetric])
  finally show ?case unfolding p by simp
qed

lemma dict_of_pairs_map_of: "dict_of_pairs ps = map_of (rev ps)"
  by (simp add: dict_of_pairs_def dict_of_pairs_fold)

lemma zip_distinct_snd:
  assumes "distinct ys" "(x, y) \<in> set (zip xs ys)" "(x', y) \<in> set (zip xs ys)"
  shows "x = x'"
proof -
  from assms(2) obtain i where i: "i < length xs" "i < length ys" "xs ! i = x" "ys ! i = y"
    by (auto simp: in_set_zip)
  from assms(3) obtain j where j: "j < length xs" "j < length ys" "xs ! j = x'" "ys ! j = y"
    by (auto simp: in_set_zip)
  from assms(1) i(2) j(2) have "(ys ! i = ys ! j) = (i = j)" by (rule nth_eq_iff_index_eq)
  with i(4) j(4) have "i = j" by simp
  with i(3) j(3) show ?thesis by simp
qed

lemma dom_build_register_mapping: "dom (build_register_mapping registers) = set registers"
proof -
  have "dom (map_of (rev (zip registers (make_columns_unique registers))))
      = fst ` set (zip registers (make_columns_unique registers))"
    by (simp add: dom_map_of_conv_image_fst)
  also have "\<dots> = set (map fst (zip registers (make_columns_unique registers)))" by simp
  also have "\<dots> = set registers"
    by (simp add: length_make_columns_unique del: set_map)
  finally show ?thesis by (simp add: build_register_mapping_def dict_of_pairs_map_of)
qed

lemma build_register_mapping_inj:
  assumes "build_register_mapping registers reg = Some c"
    and "build_register_mapping registers reg' = Some c"
  shows "reg' = reg"
proof -
  let ?ps = "zip registers (make_columns_unique registers)"
  from assms(1) have "(reg, c) \<in> set (rev ?ps)"
    unfolding build_register_mapping_def dict_of_pairs_map_of by (rule map_of_SomeD)
  moreover from assms(2) have "(reg', c) \<in> set (rev ?ps)"
    unfolding build_register_mapping_def dict_of_pairs_map_of by (rule map_of_SomeD)
  ultimately show ?thesis
    using zip_distinct_snd[OF distinct_make_columns_unique, of reg' c registers registers reg]
    by simp
qed

lemma pq_accu_row_minus:
  "pq_accu (row_minus a b) reg =
     (case regs a reg of None \<Rightarrow> None
      | Some x \<Rightarrow> (case regs b reg of None \<Rightarrow> None | Some y \<Rightarrow> Some (x - y)))"
  by (simp add: pq_accu_def row_minus_def)

lemma process_pair_value:
  assumes "process_pair ft a b registers m = Inr r" "reg \<in> set registers" "m reg = Some c"
    and "\<forall>reg'\<in>set registers. m reg' = Some c \<longrightarrow> reg' = reg"
  shows "map_of r c = Some (PFloat (case pq_accu (row_minus a b) reg of Some v \<Rightarrow> v | None \<Rightarrow> 0))"
  using assms unfolding process_pair_def Let_def by (rule arv_value)

lemma process_pair_fixed:
  assumes "process_pair ft a b registers m = Inr r" "\<forall>reg\<in>set registers. m reg \<noteq> Some k"
  shows "map_of r k =
     map_of [(''date'', PStr (strftime_date (ft (ts b)))),
             (''time'', PStr (strftime_time (ft (ts b)))),
             (''timestamp'', PInt (py_int (ts b))),
             (''tariff'', PStr (tariff_str (classify_tariff (ft (ts b)))))] k"
  using assms unfolding process_pair_def Let_def by (rule arv_other)

text \<open>
  What the reducer returns when its mapping is the one \<^verbatim>\<open>extract_data\<close> builds: it does not
  fail, there is one record for each adjacent pair of rows, in the order of the rows; a key
  that is no register's column keeps the value of the fixed fields, and the column of every
  register holds the difference of the two readings, or 0 when the register is missing from
  one of them.
\<close>

lemma process_rows_records:
  "\<exists>data. process_rows ft rows registers (build_register_mapping registers) = Inr data \<and>
     length data = length rows - 1 \<and>
     (\<forall>i<length rows - 1.
        (\<forall>k. (\<forall>reg\<in>set registers. build_register_mapping registers reg \<noteq> Some k) \<longrightarrow>
           map_of (data ! i) k =
             map_of [(''date'', PStr (strftime_date (ft (ts (rows ! (i + 1)))))),
                     (''time'', PStr (strftime_time (ft (ts (rows ! (i + 1)))))),
                     (''timestamp'', PInt (py_int (ts (rows ! (i + 1))))),
                     (''tariff'', PStr (tariff_str (classify_tariff (ft (ts (rows ! (i + 1)))))))] k) \<and>
        (\<forall>reg\<in>set registers. \<exists>c. build_register_mapping registers reg = Some c \<and>
           map_of (data ! i) c =
             Some (PFloat (case pq_accu (row_minus (rows ! i) (rows ! (i + 1))) reg of
                             Some v \<Rightarrow> v | None \<Rightarrow> 0))))"
proof -
  let ?m = "build_register_mapping registers"
  have sub: "set registers \<subseteq> dom ?m" by (simp add: dom_build_register_mapping)
  from process_rows_ok[OF sub, of ft rows] obtain data where
    d: "process_rows ft rows registers ?m = Inr data" "length data = length rows - 1"
       "\<forall>i<length rows - 1. process_pair ft (rows ! i) (rows ! (i + 1)) registers ?m = Inr (data ! i)"
    by blast
  have "\<forall>i<length rows - 1.
        (\<forall>k. (\<forall>reg\<in>set registers. ?m reg \<noteq> Some k) \<longrightarrow>
           map_of (data ! i) k =
             map_of [(''date'', PStr (strftime_date (ft (ts (rows ! (i + 1)))))),
                     (''time'', PStr (strftime_time (ft (ts (rows ! (i + 1)))))),
                     (''timestamp'', PInt (py_int (ts (rows ! (i + 1))))),
                     (''tariff'', PStr (tariff_str (classify_tariff (ft (ts (rows ! (i + 1)))))))] k) \<and>
        (\<forall>reg\<in>set registers. \<exists>c. ?m reg = Some c \<and>
           map_of (data ! i) c =
             Some (PFloat (case pq_accu (row_minus (rows ! i) (rows ! (i + 1))) reg of
                             Some v \<Rightarrow> v | None \<Rightarrow> 0)))"
  proof (intro allI impI conjI ballI)
    fix i k
    assume i: "i < length rows - 1" and k: "\<forall>reg\<in>set registers. ?m reg \<noteq> Some k"
    from d(3) i have p: "process_pair ft (rows ! i) (rows ! (i + 1)) registers ?m = Inr (data ! i)"
      by blast
    from process_pair_fixed[OF p k]
    show "map_of (data ! i) k =
             map_of [(''date'', PStr (strftime_date (ft (ts (rows ! (i + 1)))))),
                     (''time'', PStr (strftime_time (ft (ts (rows ! (i + 1)))))),
                     (''timestamp'', PInt (py_int (ts (rows ! (i + 1))))),
                     (''tariff'', PStr (tariff_str (classify_tariff (ft (ts (rows ! (i + 1)))))))] k" .
  next
    fix i reg
    assume i: "i < length rows - 1" and reg: "reg \<in> set registers"
    from d(3) i have p: "process_pair ft (rows ! i) (rows ! (i + 1)) registers ?m = Inr (data ! i)"
      by blast
    from reg sub obtain c where c: "?m reg = Some c" by blast
    have inj: "\<forall>reg'\<in>set registers. ?m reg' = Some c \<longrightarrow> reg' = reg"
      using build_register_mapping_inj[OF c] by blast
    from process_pair_value[OF p reg c inj] c
    show "\<exists>c. ?m reg = Some c \<and>
           map_of (data ! i) c =
             Some (PFloat (case pq_accu (row_minus (rows ! i) (rows ! (i + 1))) reg of
                             Some v \<Rightarrow> v | None \<Rightarrow> 0))"
      by blast
  qed
  with d(1,2) show ?thesis by blast
qed

lemma utc_100: "utc_fromtimestamp 100 = mk_datetime 1970 1 1 0 1 40 0"
  by (simp add: utc_fromtimestamp_def ord2ymd_def days_before_month_def days_in_month_def
      is_leap_def Let_def)

lemma fields_100:
  "strftime_date (utc_fromtimestamp 100) = ''1970-01-01''"
  "strftime_time (utc_fromtimestamp 100) = ''00:01:40''"
  by (simp_all only: utc_100) code_simp+

lemma tariff_100: "classify_tariff (utc_fromtimestamp 100) = Base"
  by (simp only: utc_100) (simp add: tariff_eval_defs)

lemma mapping_A: "build_register_mapping [''A''] = [''A'' \<mapsto> ''a'']"
proof -
  have "make_columns_unique [''A''] = [''a'']" by code_simp
  then show ?thesis by (simp add: build_register_mapping_def dict_of_pairs_def)
qed

lemma mapping_Timestamp: "build_register_mapping [''Timestamp''] = [''Timestamp'' \<mapsto> ''timestamp'']"
proof -
  have "make_columns_unique [''Timestamp''] = [''timestamp'']" by code_simp
  then show ?thesis by (simp add: build_register_mapping_def dict_of_pairs_def)
qed

lemmas reducer_eval_defs = process_rows_def process_pair_def Let_def reading_def row_minus_def
  pq_accu_def py_int_def tariff_str_def fields_100 tariff_100



section \<open>Claims about the reducer and the extraction\<close>

text \<open>
  C1.  For the readings of the specification's example, with timestamps 200 and 100 and
  values 50 and 30 of register \<^verbatim>\<open>A\<close>, the reducer returns one record, with timestamp 100 (and
  the date and time of that instant) and the value 20 in the column of \<^verbatim>\<open>A\<close>.  For the same
  readings of a register labelled \<^verbatim>\<open>Timestamp\<close>, whose column name is \<^verbatim>\<open>timestamp\<close>,
  the delta written for the register replaces the record's timestamp: the record's
  timestamp is the delta 20 and not 100, and the record has no further column.
\<close>

theorem C1_reserved_name_collision:
  "process_rows utc_fromtimestamp
     [reading 200 [(''A'', 50)], reading 100 [(''A'', 30)]]
     [''A''] (build_register_mapping [''A''])
   = Inr [[(''date'', PStr ''1970-01-01''), (''time'', PStr ''00:01:40''),
           (''timestamp'', PInt 100), (''tariff'', PStr ''Base''), (''a'', PFloat 20)]] \<and>
   process_rows utc_fromtimestamp
     [reading 200 [(''Timestamp'', 50)], reading 100 [(''Timestamp'', 30)]]
     [''Timestamp''] (build_register_mapping [''Timestamp''])
   = Inr [[(''date'', PStr ''1970-01-01''), (''time'', PStr ''00:01:40''),
           (''timestamp'', PFloat 20), (''tariff'', PStr ''Base'')]]"
  by (simp add: reducer_eval_defs mapping_A mapping_Timestamp)

text \<open>
  C5.  With the mapping that \<^verbatim>\<open>extract_data\<close> builds, for every adjacent pair of rows and
  every register of the mapping that one of the two rows does not have, the reducer does not
  fail and the record of the pair has 0.0 in the register's column.
\<close>

theorem C5_missing_register:
  assumes "i < length rows - 1"
    and "reg \<in> dom (build_register_mapping registers)"
    and "regs (rows ! i) reg = None \<or> regs (rows ! (i + 1)) reg = None"
  shows "\<exists>data c. process_rows ft rows registers (build_register_mapping registers) = Inr data \<and>
           length data = length rows - 1 \<and>
           build_register_mapping registers reg = Some c \<and>
           map_of (data ! i) c = Some (PFloat 0)"
proof -
  from assms(2) have reg: "reg \<in> set registers" by (simp add: dom_build_register_mapping)
  from assms(3) have z: "pq_accu (row_minus (rows ! i) (rows ! (i + 1))) reg = None"
    by (auto simp: pq_accu_row_minus split: option.splits)
  from process_rows_records[of ft rows registers] obtain data where
    d: "process_rows ft rows registers (build_register_mapping registers) = Inr data"
       "length data = length rows - 1"
       "\<forall>i<length rows - 1. \<forall>reg\<in>set registers. \<exists>c. build_register_mapping registers reg = Some c \<and>
           map_of (data ! i) c =
             Some (PFloat (case pq_accu (row_minus (rows ! i) (rows ! (i + 1))) reg of
                             Some v \<Rightarrow> v | None \<Rightarrow> 0))"
    by blast
  from d(3) assms(1) reg obtain c where
    "build_register_mapping registers reg = Some c"
    "map_of (data ! i) c =
       Some (PFloat (case pq_accu (row_minus (rows ! i) (rows ! (i + 1))) reg of
                       Some v \<Rightarrow> v | None \<Rightarrow> 0))"
    by blast
  with z d(1,2) show ?thesis by auto
qed

theorem C5_missing_register_witness:
  "build_register_mapping [''A''] ''A'' = Some ''a'' \<and>
   (\<exists>data. process_rows utc_fromtimestamp [reading 200 [(''A'', 50)], reading 100 []] [''A'']
              (build_register_mapping [''A'']) = Inr data \<and>
           length data = 1 \<and> map_of (data ! 0) ''a'' = Some (PFloat 0))"
proof -
  let ?rows = "[reading 200 [(''A'', 50)], reading 100 []]"
  have m: "build_register_mapping [''A''] ''A'' = Some ''a''" by (simp add: mapping_A)
  have 1: "0 < length ?rows - 1" by simp
  have 2: "''A'' \<in> dom (build_register_mapping [''A''])" using m by blast
  have 3: "regs (?rows ! 0) ''A'' = None \<or> regs (?rows ! (0 + 1)) ''A'' = None"
    by (simp add: reading_def)
  from C5_missing_register[OF 1 2 3, of utc_fromtimestamp] m show ?thesis by auto
qed

text \<open>
  C6.  When the device is reached and answers with fewer than two rows, \<^verbatim>\<open>extract_data\<close>
  returns a failure value, with no records, whose message gives the number of rows that
  were received.
\<close>

theorem C6_insufficient_data:
  assumes "env_connect env url = Inr dev"
    and "env_fetch env dev (request_time_param env start_date end_date delta_hours)
           = Inr (rows, ret_regs)"
    and "length rows < 2"
  shows "extract_data env url start_date end_date delta_hours =
     Failure (''Not enough data in the specified range. Received only '' @ str_nat (length rows)
              @ '' rows. The device may not have data for this period.'')"
  using assms by (simp add: extract_data_def)

theorem C6_insufficient_data_witness:
  "extract_data (demo_env [reading 100 [(''A'', 30)]] [''A'']) ''http://meter''
     (mk_datetime 2025 10 1 0 0 0 0) (mk_datetime 2025 10 2 0 0 0 0) 1
   = Failure ''Not enough data in the specified range. Received only 1 rows. The device may not have data for this period.''"
proof -
  let ?env = "demo_env [reading 100 [(''A'', 30)]] [''A'']"
  have s: "str_nat (Suc 0) = ''1''" by code_simp
  have 1: "env_connect ?env ''http://meter'' = Inr ()" by (simp add: demo_env_def)
  have 2: "env_fetch ?env ()
      (request_time_param ?env (mk_datetime 2025 10 1 0 0 0 0) (mk_datetime 2025 10 2 0 0 0 0) 1)
      = Inr ([reading 100 [(''A'', 30)]], [''A''])" by (simp add: demo_env_def)
  have 3: "length [reading 100 [(''A'', 30)]] < 2" by simp
  from C6_insufficient_data[OF 1 2 3] show ?thesis by (simp add: s)
qed




end
